theory Spec2Isabelle
  imports Complex_Main "HOL-Library.Word"
begin

section \<open>JavaScript strings and the string operations the program uses\<close>

text \<open>
  A JavaScript string is a sequence of UTF-16 code units. The regular expressions of the
  program carry no \<open>u\<close> flag, so they work on code units as well. Literals are written
  \<open>js ''...''\<close>.
\<close>

type_synonym jschar = "16 word"
type_synonym jsstring = "jschar list"

definition js :: "string \<Rightarrow> jsstring" where
  "js s = map of_char s"

text \<open>
  The class \<open>\s\<close> of a regular expression and the characters \<open>String.prototype.trim\<close>
  removes are the same set: WhiteSpace and LineTerminator of ECMAScript.
\<close>

definition isSpace :: "jschar \<Rightarrow> bool" where
  "isSpace c \<longleftrightarrow>
     c = 0x09 \<or> c = 0x0A \<or> c = 0x0B \<or> c = 0x0C \<or> c = 0x0D \<or> c = 0x20 \<or> c = 0xA0 \<or>
     c = 0x1680 \<or> (0x2000 \<le> c \<and> c \<le> 0x200A) \<or> c = 0x2028 \<or> c = 0x2029 \<or>
     c = 0x202F \<or> c = 0x205F \<or> c = 0x3000 \<or> c = 0xFEFF"

text \<open>The class \<open>\d\<close>: the ten ASCII digits.\<close>

definition isDigit :: "jschar \<Rightarrow> bool" where
  "isDigit c \<longleftrightarrow> 0x30 \<le> c \<and> c \<le> 0x39"

definition trim :: "jsstring \<Rightarrow> jsstring" where
  "trim s = rev (dropWhile isSpace (rev (dropWhile isSpace s)))"

text \<open>\<open>s.split(sep)\<close> for a separator of one code unit: never the empty array.\<close>

function splitOn :: "'a \<Rightarrow> 'a list \<Rightarrow> 'a list list" where
  "splitOn sep s =
     (case dropWhile (\<lambda>c. c \<noteq> sep) s of
        [] \<Rightarrow> [s]
      | _ # rest \<Rightarrow> takeWhile (\<lambda>c. c \<noteq> sep) s # splitOn sep rest)"
  by pat_completeness auto
termination
proof (relation "measure (\<lambda>(sep, s). length s)")
  show "wf (measure (\<lambda>(sep, s). length s))" by simp
next
  fix sep :: 'a and s x21 x22
  assume "dropWhile (\<lambda>c. c \<noteq> sep) s = x21 # x22"
  then have "length (x21 # x22) \<le> length s"
    by (metis length_dropWhile_le)
  then show "((sep, x22), (sep, s)) \<in> measure (\<lambda>(sep, s). length s)" by simp
qed

text \<open>\<open>parts.join(sep)\<close>.\<close>

fun join :: "'a list \<Rightarrow> 'a list list \<Rightarrow> 'a list" where
  "join sep [] = []"
| "join sep [x] = x"
| "join sep (x # y # ys) = x @ sep @ join sep (y # ys)"

definition nl :: jschar where
  "nl = 0x0A"

text \<open>
  \<open>s.split(/\s+/)\<close>: the pieces between the maximal runs of white space. The empty
  string gives one empty piece, and white space at either end gives an empty piece there.
\<close>

function splitWs :: "jsstring \<Rightarrow> jsstring list" where
  "splitWs s =
     (case dropWhile (\<lambda>c. \<not> isSpace c) s of
        [] \<Rightarrow> [s]
      | _ # rest \<Rightarrow> takeWhile (\<lambda>c. \<not> isSpace c) s # splitWs (dropWhile isSpace rest))"
  by pat_completeness auto
termination
proof (relation "measure length")
  show "wf (measure length)" by simp
next
  fix s :: jsstring and x21 x22
  assume "dropWhile (\<lambda>c. \<not> isSpace c) s = x21 # x22"
  then have "length (x21 # x22) \<le> length s"
    by (metis length_dropWhile_le)
  moreover have "length (dropWhile isSpace x22) \<le> length x22"
    by (rule length_dropWhile_le)
  ultimately show "(dropWhile isSpace x22, s) \<in> measure length" by simp
qed

text \<open>
  The regular expressions of fixed shape (a sequence of literal code units and \<open>\d\<close>) are
  lists of atoms; \<open>matchAtoms p s\<close> matches \<open>p\<close> at the start of \<open>s\<close> and returns what
  follows the match.
\<close>

datatype atom = Lit jschar | Digit

fun atomOk :: "atom \<Rightarrow> jschar \<Rightarrow> bool" where
  "atomOk (Lit d) c = (c = d)"
| "atomOk Digit c = isDigit c"

fun matchAtoms :: "atom list \<Rightarrow> jsstring \<Rightarrow> jsstring option" where
  "matchAtoms [] s = Some s"
| "matchAtoms (a # as) [] = None"
| "matchAtoms (a # as) (c # cs) = (if atomOk a c then matchAtoms as cs else None)"

lemma matchAtoms_length:
  "matchAtoms p s = Some rest \<Longrightarrow> length s = length p + length rest"
  by (induction p s rule: matchAtoms.induct) (auto split: if_splits)

definition lits :: "string \<Rightarrow> atom list" where
  "lits s = map (\<lambda>c. Lit (of_char c)) s"

text \<open>The shape \<open>\d{2}:\d{2}:\d{2}\.\d{3}\<close>.\<close>

definition clockAtoms :: "atom list" where
  "clockAtoms = [Digit, Digit] @ lits '':'' @ [Digit, Digit] @ lits '':'' @ [Digit, Digit]
     @ lits ''.'' @ [Digit, Digit, Digit]"

section \<open>SubtitleProcessor.cleanText\<close>

text \<open>
  \<open>/<[^>]+>/\<close> at the start of \<open>s\<close>: a \<open><\<close>, at least one code unit other than \<open>>\<close>,
  and the first \<open>>\<close> after them (a negated class also matches line terminators).
\<close>

definition matchTag :: "jsstring \<Rightarrow> jsstring option" where
  "matchTag s =
     (case s of
        c # d # ds \<Rightarrow>
          if c = 0x3C \<and> d \<noteq> 0x3E then
            (case dropWhile (\<lambda>x. x \<noteq> 0x3E) ds of [] \<Rightarrow> None | _ # rest \<Rightarrow> Some rest)
          else None
      | _ \<Rightarrow> None)"

lemma matchTag_length: "matchTag s = Some rest \<Longrightarrow> length rest < length s"
proof -
  assume m: "matchTag s = Some rest"
  then obtain c d ds g where s: "s = c # d # ds" and r: "dropWhile (\<lambda>x. x \<noteq> 0x3E) ds = g # rest"
    by (auto simp: matchTag_def split: list.splits if_splits)
  have "length (g # rest) \<le> length ds"
    by (metis r length_dropWhile_le)
  with s show ?thesis by simp
qed

text \<open>\<open>.replace(/<[^>]+>/g, '')\<close>: the matches are found from the left and do not overlap.\<close>

function removeTags :: "jsstring \<Rightarrow> jsstring" where
  "removeTags [] = []"
| "removeTags (c # cs) =
     (case matchTag (c # cs) of
        Some rest \<Rightarrow> removeTags rest
      | None \<Rightarrow> c # removeTags cs)"
  by pat_completeness auto
termination
  by (relation "measure length") (auto dest: matchTag_length)

definition alignAtoms :: "atom list" where
  "alignAtoms = lits ''align:start position:0%''"

lemma matchAlign_length: "matchAtoms alignAtoms s = Some rest \<Longrightarrow> length rest < length s"
  using matchAtoms_length [of alignAtoms s rest] by (simp add: alignAtoms_def lits_def)

text \<open>\<open>.replace(/align:start position:0%/g, '')\<close>.\<close>

function removeAlign :: "jsstring \<Rightarrow> jsstring" where
  "removeAlign [] = []"
| "removeAlign (c # cs) =
     (case matchAtoms alignAtoms (c # cs) of
        Some rest \<Rightarrow> removeAlign rest
      | None \<Rightarrow> c # removeAlign cs)"
  by pat_completeness auto
termination
  by (relation "measure length") (auto dest: matchAlign_length)

text \<open>\<open>.replace(/\s+/g, ' ')\<close>: every maximal run of white space becomes one space.\<close>

function collapseSpaces :: "jsstring \<Rightarrow> jsstring" where
  "collapseSpaces [] = []"
| "collapseSpaces (c # cs) =
     (if isSpace c then 0x20 # collapseSpaces (dropWhile isSpace cs)
      else c # collapseSpaces cs)"
  by pat_completeness auto
termination
proof (relation "measure length")
  show "wf (measure length)" by simp
next
  fix c :: jschar and cs
  have "length (dropWhile isSpace cs) \<le> length cs"
    by (rule length_dropWhile_le)
  then show "(dropWhile isSpace cs, c # cs) \<in> measure length" by simp
next
  fix c :: jschar and cs
  show "(cs, c # cs) \<in> measure length" by simp
qed

definition cleanText :: "jsstring \<Rightarrow> jsstring" where
  "cleanText text = trim (collapseSpaces (removeAlign (removeTags text)))"

section \<open>SubtitleProcessor.processSubtitles\<close>

text \<open>\<open>CONSTANTS.TIMESTAMP_REGEX\<close>, anchored at the start of the line only.\<close>

definition TIMESTAMP_REGEX :: "atom list" where
  "TIMESTAMP_REGEX = clockAtoms @ lits '' --> '' @ clockAtoms"

definition testTimestamp :: "jsstring \<Rightarrow> bool" where
  "testTimestamp line = (matchAtoms TIMESTAMP_REGEX line \<noteq> None)"

text \<open>\<open>s.split(sep)[0]\<close>: what stands before the first occurrence of \<open>sep\<close>.\<close>

fun firstPart :: "atom list \<Rightarrow> jsstring \<Rightarrow> jsstring" where
  "firstPart sep [] = []"
| "firstPart sep (c # cs) =
     (if matchAtoms sep (c # cs) \<noteq> None then [] else c # firstPart sep cs)"

text \<open>The template \<open>`[${currentTimestamp}] ${cleanedText}`\<close>.\<close>

definition renderLine :: "jsstring \<Rightarrow> jsstring \<Rightarrow> jsstring" where
  "renderLine currentTimestamp cleanedText =
     js ''['' @ currentTimestamp @ js ''] '' @ cleanedText"

text \<open>
  One turn of the loop over the lines, on the three variables
  \<open>(transcript, currentTimestamp, previousText)\<close>.
\<close>

fun subtitleStep ::
  "jsstring list \<times> jsstring \<times> jsstring \<Rightarrow> jsstring \<Rightarrow> jsstring list \<times> jsstring \<times> jsstring" where
  "subtitleStep (transcript, currentTimestamp, previousText) rawLine =
     (let line = trim rawLine in
      if line = [] then (transcript, currentTimestamp, previousText)
      else if testTimestamp line then
        (transcript, firstPart (lits '' -->'') line, previousText)
      else
        (let cleanedText = cleanText line in
         if cleanedText \<noteq> [] \<and> cleanedText \<noteq> previousText then
           (transcript @ [renderLine currentTimestamp cleanedText], currentTimestamp, cleanedText)
         else (transcript, currentTimestamp, previousText)))"

definition processLines ::
  "jsstring list \<times> jsstring \<times> jsstring \<Rightarrow> jsstring list \<Rightarrow> jsstring list \<times> jsstring \<times> jsstring" where
  "processLines st lines = foldl subtitleStep st lines"

definition processSubtitles :: "jsstring \<Rightarrow> jsstring" where
  "processSubtitles content =
     join [nl] (fst (processLines ([], [], []) (splitOn nl content)))"

section \<open>SubtitleProcessor.splitIntoChunks\<close>

text \<open>The shape \<open>\[\d{2}:\d{2}:\d{2}\.\d{3}\]\<close> that \<open>countWords\<close> removes.\<close>

definition stampAtoms :: "atom list" where
  "stampAtoms = lits ''['' @ clockAtoms @ lits '']''"

lemma matchStamp_length: "matchAtoms stampAtoms s = Some rest \<Longrightarrow> length rest < length s"
  using matchAtoms_length [of stampAtoms s rest]
  by (simp add: stampAtoms_def clockAtoms_def lits_def)

function stripTimestamps :: "jsstring \<Rightarrow> jsstring" where
  "stripTimestamps [] = []"
| "stripTimestamps (c # cs) =
     (case matchAtoms stampAtoms (c # cs) of
        Some rest \<Rightarrow> stripTimestamps rest
      | None \<Rightarrow> c # stripTimestamps cs)"
  by pat_completeness auto
termination
  by (relation "measure length") (auto dest: matchStamp_length)

definition countWords :: "jsstring \<Rightarrow> int" where
  "countWords line = int (length (splitWs (trim (stripTimestamps line))))"

text \<open>
  One turn of the loop over the lines, on the three variables
  \<open>(chunks, currentChunk, currentWordCount)\<close>. When the chunk is closed, the line is pushed
  on the emptied chunk and its count added to zero.
\<close>

fun chunkStep ::
  "int \<Rightarrow> jsstring list \<times> jsstring list \<times> int \<Rightarrow> jsstring \<Rightarrow> jsstring list \<times> jsstring list \<times> int" where
  "chunkStep wordLimit (chunks, currentChunk, currentWordCount) line =
     (let lineWordCount = countWords line in
      if currentWordCount + lineWordCount > wordLimit \<and> length currentChunk > 0 then
        (chunks @ [join [nl] currentChunk], [line], lineWordCount)
      else (chunks, currentChunk @ [line], currentWordCount + lineWordCount))"

fun closeChunks :: "jsstring list \<times> jsstring list \<times> int \<Rightarrow> jsstring list" where
  "closeChunks (chunks, currentChunk, currentWordCount) =
     (if length currentChunk > 0 then chunks @ [join [nl] currentChunk] else chunks)"

definition splitIntoChunks :: "jsstring \<Rightarrow> int \<Rightarrow> jsstring list" where
  "splitIntoChunks text wordLimit =
     closeChunks (foldl (chunkStep wordLimit) ([], [], 0) (splitOn nl text))"

section \<open>SubtitleProcessor.validateConfig\<close>

text \<open>
  A JavaScript number: \<open>NaN\<close>, an infinity, or a finite value. The finite doubles are
  among the real numbers, and \<open>Math.max\<close>, \<open>Math.min\<close> and the comparisons return or
  compare their arguments as they are, so the finite values are real numbers here (the
  two zeros are one).
\<close>

datatype jsnum = NaN | NegInfinity | Finite real | PosInfinity

text \<open>\<open>a < b\<close> on numbers: false as soon as one of them is \<open>NaN\<close>.\<close>

fun numLess :: "jsnum \<Rightarrow> jsnum \<Rightarrow> bool" where
  "numLess NaN b = False"
| "numLess a NaN = False"
| "numLess (Finite x) (Finite y) = (x < y)"
| "numLess NegInfinity b = (b \<noteq> NegInfinity)"
| "numLess a PosInfinity = (a \<noteq> PosInfinity)"
| "numLess a b = False"

text \<open>\<open>Math.max\<close> and \<open>Math.min\<close> of two numbers: \<open>NaN\<close> as soon as one of them is \<open>NaN\<close>.\<close>

definition mathMax :: "jsnum \<Rightarrow> jsnum \<Rightarrow> jsnum" where
  "mathMax a b = (if a = NaN \<or> b = NaN then NaN else if numLess a b then b else a)"

definition mathMin :: "jsnum \<Rightarrow> jsnum \<Rightarrow> jsnum" where
  "mathMin a b = (if a = NaN \<or> b = NaN then NaN else if numLess b a then b else a)"

text \<open>
  The parameter \<open>args: any\<close> is the arguments object of the request, read from JSON and
  not checked against the input schema: each of the three keys is absent (\<open>None\<close>, that
  is \<open>undefined\<close>) or holds any value.
\<close>

datatype jsvalue =
  Null | Boolean bool | Number jsnum | String jsstring
  | Array "jsvalue list" | Object "(jsstring \<times> jsvalue) list"

record args =
  arg_chunkSize :: "jsvalue option"
  arg_chunkIndex :: "jsvalue option"
  arg_chunks :: "jsvalue option"

text \<open>
  \<open>Math.max\<close> and \<open>Math.min\<close> convert each argument to a number first. A number is
  itself, \<open>null\<close> is 0, \<open>true\<close> is 1 and \<open>false\<close> is 0. A string, an array or an object is
  converted through its text, read as a numeric literal and rounded to a double, or \<open>NaN\<close>
  when the text is no numeric literal: this conversion is the parameter \<open>conv\<close>.
\<close>

fun ToNumber :: "(jsvalue \<Rightarrow> jsnum) \<Rightarrow> jsvalue \<Rightarrow> jsnum" where
  "ToNumber conv Null = Finite 0"
| "ToNumber conv (Boolean b) = Finite (if b then 1 else 0)"
| "ToNumber conv (Number n) = n"
| "ToNumber conv v = conv v"

text \<open>
  The three values of a \<open>SubtitleConfig\<close>. \<open>validateConfig\<close> fills them from the options
  bag: two numbers and, for \<open>chunkIndex\<close>, the value as it was supplied.
\<close>

record ('n, 'v) SubtitleConfig =
  chunkSize :: 'n
  chunkIndex :: 'v
  numChunks :: 'n

definition CHUNK_SIZE_DEFAULT :: jsnum where "CHUNK_SIZE_DEFAULT = Finite 5000"
definition CHUNK_SIZE_MIN :: jsnum where "CHUNK_SIZE_MIN = Finite 5000"
definition CHUNK_SIZE_MAX :: jsnum where "CHUNK_SIZE_MAX = Finite 20000"
definition CHUNKS_DEFAULT :: jsnum where "CHUNKS_DEFAULT = Finite 1"
definition CHUNKS_MAX :: jsnum where "CHUNKS_MAX = Finite 5"

text \<open>The operator \<open>??\<close>: the default stands in for \<open>undefined\<close> and for \<open>null\<close> only.\<close>

fun orElse :: "jsvalue option \<Rightarrow> jsvalue \<Rightarrow> jsvalue" where
  "orElse None d = d"
| "orElse (Some Null) d = d"
| "orElse (Some v) d = v"

definition validateConfig :: "(jsvalue \<Rightarrow> jsnum) \<Rightarrow> args \<Rightarrow> (jsnum, jsvalue) SubtitleConfig" where
  "validateConfig conv a =
     \<lparr> chunkSize =
         mathMin (mathMax (ToNumber conv (orElse (arg_chunkSize a) (Number CHUNK_SIZE_DEFAULT)))
                          CHUNK_SIZE_MIN)
                 CHUNK_SIZE_MAX,
       chunkIndex = orElse (arg_chunkIndex a) (Number (Finite 0)),
       numChunks =
         mathMin (ToNumber conv (orElse (arg_chunks a) (Number CHUNKS_DEFAULT))) CHUNKS_MAX \<rparr>"

text \<open>
  The conversion of the values that are no numeric literal, such as the string \<open>abc\<close>:
  \<open>NaN\<close>.
\<close>

definition notNumeric :: "jsvalue \<Rightarrow> jsnum" where
  "notNumeric v = NaN"

section \<open>formatResponse\<close>

text \<open>The formatter, for a config whose three values are integers.\<close>

record ProcessedContent =
  config :: "(int, int) SubtitleConfig"
  chunks :: "jsstring list"
  totalChunks :: int

datatype error = Error jsstring

text \<open>An integer in a template: its decimal digits, after a minus sign when negative.\<close>

function digitsOf :: "nat \<Rightarrow> jsstring" where
  "digitsOf n = (if n < 10 then [0x30 + of_nat n] else digitsOf (n div 10) @ [0x30 + of_nat (n mod 10)])"
  by pat_completeness auto
termination
  by (relation "measure id") auto

definition showInt :: "int \<Rightarrow> jsstring" where
  "showInt i = (if i < 0 then js ''-'' @ digitsOf (nat (- i)) else digitsOf (nat i))"

text \<open>\<open>xs.slice(start, end)\<close>: a negative index counts from the end.\<close>

definition slice :: "'a list \<Rightarrow> int \<Rightarrow> int \<Rightarrow> 'a list" where
  "slice xs start end =
     (let n = int (length xs);
          s = (if start < 0 then max (n + start) 0 else min start n);
          e = (if end < 0 then max (n + end) 0 else min end n)
      in take (nat (e - s)) (drop (nat s) xs))"

definition chunkBlock :: "ProcessedContent \<Rightarrow> nat \<times> jsstring \<Rightarrow> jsstring" where
  "chunkBlock processed p =
     js ''[Chunk '' @ showInt (chunkIndex (config processed) + int (fst p) + 1) @ js ''/''
       @ showInt (totalChunks processed) @ js '']'' @ [nl] @ snd p @ [nl]"

definition formatResponse :: "ProcessedContent \<Rightarrow> error + jsstring" where
  "formatResponse processed =
     (if chunkIndex (config processed) < 0
         \<or> chunkIndex (config processed) \<ge> totalChunks processed then
        Inl (Error (js ''Invalid chunk index. Available chunks: 0-''
                    @ showInt (totalChunks processed - 1)))
      else
        (let endIndex = min (chunkIndex (config processed) + numChunks (config processed))
                            (totalChunks processed);
             selectedChunks = slice (chunks processed) (chunkIndex (config processed)) endIndex
         in Inr (js ''Configuration:'' @ [nl]
              @ js ''- Chunk size: '' @ showInt (chunkSize (config processed)) @ js '' words'' @ [nl]
              @ js ''- Starting chunk: '' @ showInt (chunkIndex (config processed) + 1) @ [nl]
              @ js ''- Chunks requested: '' @ showInt (numChunks (config processed)) @ [nl]
              @ js ''- Total available chunks: '' @ showInt (totalChunks processed) @ [nl]
              @ js ''====================='' @ [nl] @ [nl]
              @ join ([nl] @ js ''====================='' @ [nl])
                  (map (chunkBlock processed) (enumerate 0 selectedChunks)))))"

section \<open>Notions used to state the properties\<close>

text \<open>
  The groups of lines the loop of \<open>splitIntoChunks\<close> closes, as lists of lines: the chunks
  are these groups, each joined by a newline.
\<close>

fun grouping :: "int \<Rightarrow> jsstring list \<Rightarrow> int \<Rightarrow> jsstring list \<Rightarrow> jsstring list list" where
  "grouping limit cur cnt [] = (if length cur > 0 then [cur] else [])"
| "grouping limit cur cnt (l # ls) =
     (if cnt + countWords l > limit \<and> length cur > 0 then cur # grouping limit [l] (countWords l) ls
      else grouping limit (cur @ [l]) (cnt + countWords l) ls)"

text \<open>The words the chunker counts in a list of lines, and in the lines of a chunk.\<close>

definition lineWords :: "jsstring list \<Rightarrow> int" where
  "lineWords g = sum_list (map countWords g)"

definition chunkWords :: "jsstring \<Rightarrow> int" where
  "chunkWords chunk = sum_list (map countWords (splitOn nl chunk))"

text \<open>
  Between two groups that follow each other, the words of the first and of the first line
  of the second exceed the limit.
\<close>

fun boundaries :: "int \<Rightarrow> jsstring list list \<Rightarrow> bool" where
  "boundaries limit (g # h # rest) =
     (lineWords g + countWords (hd h) > limit \<and> boundaries limit (h # rest))"
| "boundaries limit gs = True"

text \<open>
  The word count as the specification words it: only a timestamp token that leads the
  line is stripped. The program strips every token, wherever it stands.
\<close>

definition countWordsLeading :: "jsstring \<Rightarrow> int" where
  "countWordsLeading line =
     int (length (splitWs (trim (case matchAtoms stampAtoms line of
                                   Some rest \<Rightarrow> rest | None \<Rightarrow> line))))"

definition chunkWordsLeading :: "jsstring \<Rightarrow> int" where
  "chunkWordsLeading chunk = sum_list (map countWordsLeading (splitOn nl chunk))"

text \<open>
  The texts the builder considers, in order: the lines that are neither blank nor a
  timestamp marker, each cleaned, the empty results dropped.
\<close>

definition captionTexts :: "jsstring list \<Rightarrow> jsstring list" where
  "captionTexts lines =
     filter (\<lambda>t. t \<noteq> [])
       (map cleanText (filter (\<lambda>l. l \<noteq> [] \<and> \<not> testTimestamp l) (map trim lines)))"

text \<open>The lines the loop pushes, as pairs of the timestamp and the text they are rendered from.\<close>

fun emitted :: "jsstring \<Rightarrow> jsstring \<Rightarrow> jsstring list \<Rightarrow> (jsstring \<times> jsstring) list" where
  "emitted ts prev [] = []"
| "emitted ts prev (raw # ls) =
     (let line = trim raw in
      if line = [] then emitted ts prev ls
      else if testTimestamp line then emitted (firstPart (lits '' -->'') line) prev ls
      else (let t = cleanText line in
            if t \<noteq> [] \<and> t \<noteq> prev then (ts, t) # emitted ts t ls
            else emitted ts prev ls))"

text \<open>The text of a transcript line: what follows its first \<open>]\<close> and the space after it.\<close>

definition lineText :: "jsstring \<Rightarrow> jsstring" where
  "lineText line = drop 2 (dropWhile (\<lambda>c. c \<noteq> 0x5D) line)"




text \<open>White space is single spaces only, none next to another.\<close>

fun normalSpaces :: "jsstring \<Rightarrow> bool" where
  "normalSpaces [] = True"
| "normalSpaces (c # cs) =
     ((if isSpace c then c = 0x20 \<and> (case cs of [] \<Rightarrow> True | d # _ \<Rightarrow> \<not> isSpace d) else True)
      \<and> normalSpaces cs)"

section \<open>Splitting and joining\<close>

declare splitOn.simps [simp del] splitWs.simps [simp del]

lemma splitOn_Nil: "splitOn sep [] = [[]]"
  by (simp add: splitOn.simps)

lemma splitOn_nonempty: "splitOn sep s \<noteq> []"
  by (subst splitOn.simps) (simp split: list.splits)

lemma splitOn_Cons:
  "splitOn sep (c # cs) =
     (if c = sep then [] # splitOn sep cs
      else (c # hd (splitOn sep cs)) # tl (splitOn sep cs))"
proof (cases "c = sep")
  case True
  then show ?thesis by (simp add: splitOn.simps [of sep "sep # cs"])
next
  case False
  then show ?thesis
    by (simp add: splitOn.simps [of sep "c # cs"] splitOn.simps [of sep cs]
          del: dropWhile_eq_Nil_conv split: list.split)
qed

lemma splitOn_no_sep: "l \<in> set (splitOn sep s) \<Longrightarrow> sep \<notin> set l"
proof (induction s arbitrary: l)
  case Nil
  then show ?case by (simp add: splitOn_Nil)
next
  case (Cons c cs)
  obtain h t where ht: "splitOn sep cs = h # t"
    using splitOn_nonempty [of sep cs] by (cases "splitOn sep cs") auto
  from Cons ht show ?case
    by (auto simp: splitOn_Cons split: if_splits)
qed

lemma join_Cons: "ys \<noteq> [] \<Longrightarrow> join sep (x # ys) = x @ sep @ join sep ys"
  by (cases ys) auto

lemma join_Cons_Cons: "join sep ((c # h) # t) = c # join sep (h # t)"
  by (cases t) auto

lemma join_splitOn: "join [sep] (splitOn sep s) = s"
proof (induction s)
  case Nil
  then show ?case by (simp add: splitOn_Nil)
next
  case (Cons c cs)
  obtain h t where ht: "splitOn sep cs = h # t"
    using splitOn_nonempty [of sep cs] by (cases "splitOn sep cs") auto
  show ?case
  proof (cases "c = sep")
    case True
    then show ?thesis using Cons ht by (simp add: splitOn_Cons join_Cons)
  next
    case False
    then show ?thesis using Cons ht by (simp add: splitOn_Cons join_Cons_Cons)
  qed
qed

lemma splitOn_free: "sep \<notin> set l \<Longrightarrow> splitOn sep l = [l]"
  by (induction l) (auto simp: splitOn_Nil splitOn_Cons)

lemma splitOn_append: "sep \<notin> set l \<Longrightarrow> splitOn sep (l @ sep # r) = l # splitOn sep r"
  by (induction l) (auto simp: splitOn_Cons)

lemma splitOn_join:
  "ls \<noteq> [] \<Longrightarrow> (\<And>l. l \<in> set ls \<Longrightarrow> sep \<notin> set l) \<Longrightarrow> splitOn sep (join [sep] ls) = ls"
proof (induction ls)
  case Nil
  then show ?case by simp
next
  case (Cons l ls)
  show ?case
  proof (cases ls)
    case Nil
    with Cons.prems show ?thesis by (simp add: splitOn_free)
  next
    case (Cons m ms)
    with Cons.IH Cons.prems show ?thesis by (simp add: splitOn_append)
  qed
qed

lemma join_append:
  "xs \<noteq> [] \<Longrightarrow> ys \<noteq> [] \<Longrightarrow> join sep (xs @ ys) = join sep xs @ sep @ join sep ys"
proof (induction xs)
  case Nil
  then show ?case by simp
next
  case (Cons x xs)
  then show ?case by (cases xs) (simp_all add: join_Cons)
qed

lemma join_concat:
  "(\<And>g. g \<in> set gs \<Longrightarrow> g \<noteq> []) \<Longrightarrow> join sep (map (join sep) gs) = join sep (concat gs)"
proof (induction gs)
  case Nil
  then show ?case by simp
next
  case (Cons g gs)
  show ?case
  proof (cases "gs = []")
    case True
    then show ?thesis by simp
  next
    case False
    then obtain h where "h \<in> set gs" by (cases gs) auto
    with Cons.prems have "concat gs \<noteq> []" by force
    moreover have "g \<noteq> []" using Cons.prems by simp
    ultimately show ?thesis
      using Cons False by (simp add: join_Cons join_append)
  qed
qed

section \<open>The chunker\<close>

lemma closeChunks_foldl:
  "closeChunks (foldl (chunkStep limit) (chs, cur, cnt) ls)
     = chs @ map (join [nl]) (grouping limit cur cnt ls)"
  by (induction ls arbitrary: chs cur cnt) (auto simp: Let_def)

lemma splitIntoChunks_grouping:
  "splitIntoChunks text limit = map (join [nl]) (grouping limit [] 0 (splitOn nl text))"
  by (simp add: splitIntoChunks_def closeChunks_foldl)

lemma concat_grouping: "concat (grouping limit cur cnt ls) = cur @ ls"
  by (induction ls arbitrary: cur cnt) auto

lemma grouping_nonempty: "g \<in> set (grouping limit cur cnt ls) \<Longrightarrow> g \<noteq> []"
  by (induction ls arbitrary: cur cnt) (auto split: if_splits)

lemma grouping_lines: "g \<in> set (grouping limit cur cnt ls) \<Longrightarrow> set g \<subseteq> set cur \<union> set ls"
  using concat_grouping [of limit cur cnt ls]
  by (metis Sup_upper set_concat set_append image_eqI)

lemma grouping_bound:
  "cnt = lineWords cur \<Longrightarrow> lineWords cur \<le> limit \<or> length cur \<le> 1
     \<Longrightarrow> g \<in> set (grouping limit cur cnt ls) \<Longrightarrow> lineWords g \<le> limit \<or> length g = 1"
proof (induction ls arbitrary: cur cnt)
  case Nil
  then show ?case by (cases cur) (auto split: if_splits)
next
  case (Cons l ls)
  show ?case
  proof (cases "cnt + countWords l > limit \<and> length cur > 0")
    case True
    with Cons.prems have "g = cur \<or> g \<in> set (grouping limit [l] (countWords l) ls)" by auto
    then show ?thesis
    proof
      assume "g = cur"
      with Cons.prems True show ?thesis by (cases cur) (auto simp: lineWords_def)
    next
      assume "g \<in> set (grouping limit [l] (countWords l) ls)"
      then show ?thesis
        using Cons.IH [of "countWords l" "[l]"] by (simp add: lineWords_def)
    qed
  next
    case False
    with Cons.prems have g: "g \<in> set (grouping limit (cur @ [l]) (cnt + countWords l) ls)" by auto
    have "lineWords (cur @ [l]) \<le> limit \<or> length (cur @ [l]) \<le> 1"
      using False Cons.prems(1) by (auto simp: lineWords_def)
    then show ?thesis
      using Cons.IH [of "cnt + countWords l" "cur @ [l]"] g Cons.prems(1)
      by (simp add: lineWords_def)
  qed
qed

lemma grouping_hd:
  "cur \<noteq> [] \<Longrightarrow> \<exists>g rest. grouping limit cur cnt ls = g # rest \<and> hd g = hd cur"
proof (induction ls arbitrary: cur cnt)
  case Nil
  then show ?case by simp
next
  case (Cons l ls)
  show ?case
  proof (cases "cnt + countWords l > limit \<and> length cur > 0")
    case True
    then show ?thesis by simp
  next
    case False
    have "hd (cur @ [l]) = hd cur" using Cons.prems by simp
    with Cons.IH [of "cur @ [l]" "cnt + countWords l"] False show ?thesis by simp
  qed
qed

lemma grouping_boundaries: "cnt = lineWords cur \<Longrightarrow> boundaries limit (grouping limit cur cnt ls)"
proof (induction ls arbitrary: cur cnt)
  case Nil
  then show ?case by simp
next
  case (Cons l ls)
  show ?case
  proof (cases "cnt + countWords l > limit \<and> length cur > 0")
    case True
    obtain h rest where h: "grouping limit [l] (countWords l) ls = h # rest" "hd h = l"
      using grouping_hd [of "[l]" limit "countWords l" ls] by auto
    have "boundaries limit (grouping limit [l] (countWords l) ls)"
      by (rule Cons.IH) (simp add: lineWords_def)
    with True h Cons.prems show ?thesis by simp
  next
    case False
    have "boundaries limit (grouping limit (cur @ [l]) (cnt + countWords l) ls)"
      by (rule Cons.IH) (simp add: lineWords_def Cons.prems)
    with False show ?thesis by auto
  qed
qed

lemma boundaries_nth:
  "boundaries limit gs \<Longrightarrow> Suc k < length gs
     \<Longrightarrow> limit < lineWords (gs ! k) + countWords (hd (gs ! Suc k))"
proof (induction limit gs arbitrary: k rule: boundaries.induct)
  case (1 limit g h rest)
  then show ?case by (cases k) auto
qed auto

lemma splitOn_group:
  assumes "g \<in> set (grouping limit [] 0 (splitOn nl text))"
  shows "splitOn nl (join [nl] g) = g"
proof (rule splitOn_join)
  show "g \<noteq> []" using assms by (rule grouping_nonempty)
next
  fix l assume "l \<in> set g"
  with grouping_lines [OF assms] have "l \<in> set (splitOn nl text)" by auto
  then show "nl \<notin> set l" by (rule splitOn_no_sep)
qed

lemma lines_of_chunks:
  "map (splitOn nl) (splitIntoChunks text limit) = grouping limit [] 0 (splitOn nl text)"
  by (simp add: splitIntoChunks_grouping splitOn_group map_idI)

text \<open>
  Claim C1. For every transcript and every word limit, the chunks joined by a newline are
  the transcript again, and the lines of the chunks, chunk after chunk, are the lines of
  the transcript: no line is lost, repeated, moved or cut at a chunk boundary.
\<close>

theorem chunks_reproduce_lines:
  "join [nl] (splitIntoChunks text wordLimit) = text
   \<and> concat (map (splitOn nl) (splitIntoChunks text wordLimit)) = splitOn nl text"
proof
  have "join [nl] (splitIntoChunks text wordLimit)
          = join [nl] (concat (grouping wordLimit [] 0 (splitOn nl text)))"
    unfolding splitIntoChunks_grouping by (rule join_concat) (rule grouping_nonempty)
  then show "join [nl] (splitIntoChunks text wordLimit) = text"
    by (simp add: concat_grouping join_splitOn)
next
  show "concat (map (splitOn nl) (splitIntoChunks text wordLimit)) = splitOn nl text"
    by (simp add: lines_of_chunks concat_grouping)
qed

theorem chunks_reproduce_lines_witness:
  "splitIntoChunks (js ''a b'' @ [nl] @ js ''c'' @ [nl] @ js ''d'') 2 = [js ''a b'', js ''c'' @ [nl] @ js ''d'']
   \<and> join [nl] (splitIntoChunks (js ''a b'' @ [nl] @ js ''c'' @ [nl] @ js ''d'') 2)
       = js ''a b'' @ [nl] @ js ''c'' @ [nl] @ js ''d''
   \<and> concat (map (splitOn nl) (splitIntoChunks (js ''a b'' @ [nl] @ js ''c'' @ [nl] @ js ''d'') 2))
       = [js ''a b'', js ''c'', js ''d'']"
proof -
  have "splitIntoChunks (js ''a b'' @ [nl] @ js ''c'' @ [nl] @ js ''d'') 2
          = [js ''a b'', js ''c'' @ [nl] @ js ''d'']"
    by code_simp
  moreover have "splitOn nl (js ''a b'' @ [nl] @ js ''c'' @ [nl] @ js ''d'')
          = [js ''a b'', js ''c'', js ''d'']"
    by code_simp
  ultimately show ?thesis
    using chunks_reproduce_lines [of "js ''a b'' @ [nl] @ js ''c'' @ [nl] @ js ''d''" 2]
    by simp
qed

lemma chunkWords_lines: "chunkWords c = lineWords (splitOn nl c)"
  by (simp add: chunkWords_def lineWords_def)

lemma chunk_lines_in_grouping:
  "c \<in> set (splitIntoChunks text limit) \<Longrightarrow> splitOn nl c \<in> set (grouping limit [] 0 (splitOn nl text))"
  using lines_of_chunks [of "text" limit] by (metis imageI list.set_map)

lemma chunk_lines_nth:
  "k < length (splitIntoChunks text limit)
     \<Longrightarrow> splitOn nl (splitIntoChunks text limit ! k) = grouping limit [] 0 (splitOn nl text) ! k"
  using lines_of_chunks [of "text" limit] by (metis nth_map)

lemma length_chunks: "length (splitIntoChunks text limit) = length (grouping limit [] 0 (splitOn nl text))"
  using lines_of_chunks [of "text" limit] by (metis length_map)

text \<open>
  A transcript the builder emits, with a token inside the caption text: at limit 2 the
  program keeps both lines in one chunk (it counts one word in each), while the count that
  strips the leading token only finds three words in that chunk.
\<close>

theorem chunk_bound_leading_counterexample:
  "processSubtitles (js ''00:00:01.000 --> 00:00:03.000'' @ [nl] @ js ''a [00:00:09.000]'' @ [nl]
       @ js ''00:00:03.000 --> 00:00:05.000'' @ [nl] @ js ''b'')
     = js ''[00:00:01.000] a [00:00:09.000]'' @ [nl] @ js ''[00:00:03.000] b''
   \<and> splitIntoChunks (js ''[00:00:01.000] a [00:00:09.000]'' @ [nl] @ js ''[00:00:03.000] b'') 2
     = [js ''[00:00:01.000] a [00:00:09.000]'' @ [nl] @ js ''[00:00:03.000] b'']
   \<and> length (splitOn nl (js ''[00:00:01.000] a [00:00:09.000]'' @ [nl] @ js ''[00:00:03.000] b'')) = 2
   \<and> chunkWordsLeading (js ''[00:00:01.000] a [00:00:09.000]'' @ [nl] @ js ''[00:00:03.000] b'') = 3
   \<and> chunkWords (js ''[00:00:01.000] a [00:00:09.000]'' @ [nl] @ js ''[00:00:03.000] b'') = 2"
  by code_simp

text \<open>
  Claim C2, with the word count of the program. For every transcript and every word limit,
  a chunk counts at most the limit, unless it is one single line; and the words of a chunk
  plus those of the first line of the next chunk exceed the limit. The word count of a line
  is \<open>countWords\<close>: every \<open>[HH:MM:SS.mmm]\<close> token is removed, wherever it stands in the
  line, the rest is trimmed and split on runs of white space.
\<close>

theorem chunk_bound_and_boundaries:
  "(\<forall>c \<in> set (splitIntoChunks text wordLimit).
      chunkWords c \<le> wordLimit \<or> length (splitOn nl c) = 1)
   \<and> (\<forall>k. Suc k < length (splitIntoChunks text wordLimit) \<longrightarrow>
         wordLimit < chunkWords (splitIntoChunks text wordLimit ! k)
                      + countWords (hd (splitOn nl (splitIntoChunks text wordLimit ! Suc k))))"
proof (intro conjI ballI allI impI)
  fix c assume "c \<in> set (splitIntoChunks text wordLimit)"
  then have "splitOn nl c \<in> set (grouping wordLimit [] 0 (splitOn nl text))"
    by (rule chunk_lines_in_grouping)
  then have "lineWords (splitOn nl c) \<le> wordLimit \<or> length (splitOn nl c) = 1"
    by (rule grouping_bound [rotated 2]) (simp_all add: lineWords_def)
  then show "chunkWords c \<le> wordLimit \<or> length (splitOn nl c) = 1"
    by (simp add: chunkWords_lines)
next
  fix k assume k: "Suc k < length (splitIntoChunks text wordLimit)"
  let ?gs = "grouping wordLimit [] 0 (splitOn nl text)"
  have "boundaries wordLimit ?gs"
    by (rule grouping_boundaries) (simp add: lineWords_def)
  moreover have "Suc k < length ?gs" using k by (simp add: length_chunks)
  ultimately have "wordLimit < lineWords (?gs ! k) + countWords (hd (?gs ! Suc k))"
    by (rule boundaries_nth)
  then show "wordLimit < chunkWords (splitIntoChunks text wordLimit ! k)
                      + countWords (hd (splitOn nl (splitIntoChunks text wordLimit ! Suc k)))"
    using k by (simp add: chunkWords_lines chunk_lines_nth)
qed

theorem chunk_bound_and_boundaries_witness:
  "splitIntoChunks (js ''a b'' @ [nl] @ js ''c'' @ [nl] @ js ''d'') 2
     = [js ''a b'', js ''c'' @ [nl] @ js ''d'']
   \<and> chunkWords (js ''a b'') \<le> 2
   \<and> chunkWords (js ''c'' @ [nl] @ js ''d'') \<le> 2
   \<and> 2 < chunkWords (js ''a b'') + countWords (hd (splitOn nl (js ''c'' @ [nl] @ js ''d'')))
   \<and> countWords (js ''[00:00:01.000] a [00:00:09.000]'') = 1"
proof -
  let ?t = "js ''a b'' @ [nl] @ js ''c'' @ [nl] @ js ''d''"
  have e: "splitIntoChunks ?t 2 = [js ''a b'', js ''c'' @ [nl] @ js ''d'']"
    by code_simp
  have l: "length (splitOn nl (js ''a b'')) = 1" "length (splitOn nl (js ''c'' @ [nl] @ js ''d'')) = 2"
    by code_simp+
  have w: "countWords (js ''[00:00:01.000] a [00:00:09.000]'') = 1"
    by code_simp
  from chunk_bound_and_boundaries [of "?t" 2] e
  have "chunkWords (js ''c'' @ [nl] @ js ''d'') \<le> 2 \<or> length (splitOn nl (js ''c'' @ [nl] @ js ''d'')) = 1"
    and "2 < chunkWords (js ''a b'') + countWords (hd (splitOn nl (js ''c'' @ [nl] @ js ''d'')))"
    by auto
  moreover have "chunkWords (js ''a b'') \<le> 2" by code_simp
  ultimately show ?thesis using e l w by simp
qed

text \<open>On the empty string the chunker returns one chunk, the empty string, not zero chunks.\<close>

theorem empty_input_counterexample:
  "splitIntoChunks (js '''') 5000 = [js ''''] \<and> splitIntoChunks (js '''') 5000 \<noteq> []"
  by code_simp

text \<open>
  Claim C6, as the program has it. Every chunk is a group of at least one line of the
  input, joined by newlines; the output is never the empty list, and on the empty string
  it is the one chunk made of the one empty line.
\<close>

theorem chunks_have_lines:
  "(\<exists>gs. splitIntoChunks text wordLimit = map (join [nl]) gs
          \<and> concat gs = splitOn nl text \<and> (\<forall>g \<in> set gs. g \<noteq> []))
   \<and> splitIntoChunks text wordLimit \<noteq> []
   \<and> splitIntoChunks [] wordLimit = [[]]"
proof (intro conjI)
  let ?gs = "grouping wordLimit [] 0 (splitOn nl text)"
  have c: "concat ?gs = splitOn nl text" by (simp add: concat_grouping)
  have "splitIntoChunks text wordLimit = map (join [nl]) ?gs \<and> concat ?gs = splitOn nl text
          \<and> (\<forall>g \<in> set ?gs. g \<noteq> [])"
    using c by (auto simp: splitIntoChunks_grouping dest: grouping_nonempty)
  then show "\<exists>gs. splitIntoChunks text wordLimit = map (join [nl]) gs
          \<and> concat gs = splitOn nl text \<and> (\<forall>g \<in> set gs. g \<noteq> [])" ..
  from c have "?gs \<noteq> []" using splitOn_nonempty [of nl "text"] by auto
  then show "splitIntoChunks text wordLimit \<noteq> []" by (simp add: splitIntoChunks_grouping)
  show "splitIntoChunks [] wordLimit = [[]]"
    by (simp add: splitIntoChunks_def splitOn_Nil Let_def)
qed

theorem chunks_have_lines_witness:
  "splitIntoChunks (js ''a b'' @ [nl] @ js ''c'' @ [nl] @ js ''d'') 2
     = map (join [nl]) [[js ''a b''], [js ''c'', js ''d'']]
   \<and> splitIntoChunks (js ''a b'' @ [nl] @ js ''c'' @ [nl] @ js ''d'') 2 \<noteq> []
   \<and> splitIntoChunks [] 2 = [[]]"
proof -
  have "splitIntoChunks (js ''a b'' @ [nl] @ js ''c'' @ [nl] @ js ''d'') 2
     = map (join [nl]) [[js ''a b''], [js ''c'', js ''d'']]"
    by code_simp
  then show ?thesis
    using chunks_have_lines [of "js ''a b'' @ [nl] @ js ''c'' @ [nl] @ js ''d''" 2] by simp
qed

section \<open>The word counter\<close>

lemma splitWs_nonempty: "splitWs s \<noteq> []"
  by (subst splitWs.simps) (simp split: list.splits)

lemma splitWs_Nil: "splitWs [] = [[]]"
  by (simp add: splitWs.simps)

lemma countWords_pos: "1 \<le> countWords line"
  using splitWs_nonempty [of "trim (stripTimestamps line)"]
  by (cases "splitWs (trim (stripTimestamps line))") (simp_all add: countWords_def)

declare stripTimestamps.simps(2) [simp del]

lemma matchAtoms_append: "matchAtoms p s = Some [] \<Longrightarrow> matchAtoms p (s @ r) = Some r"
  by (induction p s rule: matchAtoms.induct) (auto split: if_splits)

lemma stripTimestamps_stamp:
  assumes "matchAtoms stampAtoms p = Some []"
  shows "stripTimestamps (p @ r) = stripTimestamps r"
proof -
  from matchStamp_length [OF assms] obtain c p' where p: "p = c # p'" by (cases p) auto
  from matchAtoms_append [OF assms] have "matchAtoms stampAtoms ((c # p') @ r) = Some r"
    by (simp add: p)
  then show ?thesis by (simp add: p stripTimestamps.simps(2))
qed

lemma space_not_bracket: "isSpace c \<Longrightarrow> c \<noteq> 0x5B"
  by (auto simp: isSpace_def)

lemma stripTimestamps_space:
  assumes "isSpace c"
  shows "stripTimestamps (c # r) = c # stripTimestamps r"
proof -
  have "matchAtoms stampAtoms (c # r) = None"
    using space_not_bracket [OF assms] by (simp add: stampAtoms_def lits_def)
  then show ?thesis by (simp add: stripTimestamps.simps(2))
qed

lemma stripTimestamps_pieces:
  "(\<And>p. p \<in> set ps \<Longrightarrow> matchAtoms stampAtoms p = Some [] \<or> (\<exists>c. p = [c] \<and> isSpace c))
     \<Longrightarrow> list_all isSpace (stripTimestamps (concat ps))"
proof (induction ps)
  case Nil
  then show ?case by simp
next
  case (Cons p ps)
  have ih: "list_all isSpace (stripTimestamps (concat ps))"
    by (rule Cons.IH) (simp add: Cons.prems)
  have "matchAtoms stampAtoms p = Some [] \<or> (\<exists>c. p = [c] \<and> isSpace c)"
    by (rule Cons.prems) simp
  then show ?case
  proof
    assume "matchAtoms stampAtoms p = Some []"
    then show ?thesis using ih by (simp add: stripTimestamps_stamp)
  next
    assume "\<exists>c. p = [c] \<and> isSpace c"
    then obtain c where "p = [c]" "isSpace c" by blast
    then show ?thesis using ih by (simp add: stripTimestamps_space)
  qed
qed

lemma trim_blank:
  assumes "list_all isSpace s"
  shows "trim s = []"
proof -
  have "dropWhile isSpace s = []" using assms by (simp add: list_all_iff)
  then show ?thesis by (simp add: trim_def del: dropWhile_eq_Nil_conv)
qed

lemma countWords_blank_after_strip:
  "list_all isSpace (stripTimestamps line) \<Longrightarrow> countWords line = 1"
  by (simp add: countWords_def trim_blank splitWs_Nil)

lemma stripTimestamps_blank: "list_all isSpace s \<Longrightarrow> list_all isSpace (stripTimestamps s)"
  by (induction s) (simp_all add: stripTimestamps_space)

lemma splitIntoChunks_Nil: "splitIntoChunks [] limit = [[]]"
  by (simp add: splitIntoChunks_def splitOn_Nil Let_def)

text \<open>
  Claim C10. Every line counts at least one word; a line made of timestamp tokens and
  white space only (the empty line too) counts exactly one; so the empty string gives one
  chunk, the empty string, and a blank line adds one to the running count of its chunk
  (which starts again at one when the line opens a new chunk).
\<close>

theorem countWords_at_least_one:
  "1 \<le> countWords line
   \<and> ((\<forall>p \<in> set ps. matchAtoms stampAtoms p = Some [] \<or> (\<exists>c. p = [c] \<and> isSpace c))
        \<longrightarrow> countWords (concat ps) = 1)
   \<and> splitIntoChunks [] wordLimit = [[]]
   \<and> (list_all isSpace blank \<longrightarrow>
        snd (snd (chunkStep wordLimit (chs, cur, cnt) blank))
          = (if cnt + 1 > wordLimit \<and> length cur > 0 then 1 else cnt + 1))"
proof (intro conjI impI)
  show "1 \<le> countWords line" by (rule countWords_pos)
next
  assume "\<forall>p \<in> set ps. matchAtoms stampAtoms p = Some [] \<or> (\<exists>c. p = [c] \<and> isSpace c)"
  then have "list_all isSpace (stripTimestamps (concat ps))"
    by (intro stripTimestamps_pieces) blast
  then show "countWords (concat ps) = 1" by (rule countWords_blank_after_strip)
next
  show "splitIntoChunks [] wordLimit = [[]]" by (rule splitIntoChunks_Nil)
next
  assume "list_all isSpace blank"
  then have "countWords blank = 1"
    by (intro countWords_blank_after_strip stripTimestamps_blank)
  then show "snd (snd (chunkStep wordLimit (chs, cur, cnt) blank))
          = (if cnt + 1 > wordLimit \<and> length cur > 0 then 1 else cnt + 1)"
    by (simp add: Let_def)
qed

theorem countWords_at_least_one_witness:
  "matchAtoms stampAtoms (js ''[00:00:01.000]'') = Some []
   \<and> isSpace 0x20
   \<and> countWords (concat [js ''[00:00:01.000]'', [0x20], js ''[00:00:01.000]'']) = 1
   \<and> countWords (js '''') = 1
   \<and> splitIntoChunks (js '''') 5000 = [js '''']
   \<and> list_all isSpace (js ''  '')
   \<and> snd (snd (chunkStep 5000 ([], [js ''a''], 1) (js ''  ''))) = 2"
proof -
  have s: "matchAtoms stampAtoms (js ''[00:00:01.000]'') = Some []" by code_simp
  have b: "isSpace 0x20" by (simp add: isSpace_def)
  have l: "list_all isSpace (js ''  '')" by (simp add: js_def isSpace_def)
  have e: "js '''' = []" "concat ([] :: jsstring list) = []" by (simp_all add: js_def)
  note t = countWords_at_least_one [of _ "[js ''[00:00:01.000]'', [0x20], js ''[00:00:01.000]'']"
      5000 "js ''  ''" "[]" "[js ''a'']" 1]
  note u = countWords_at_least_one [of _ "[]" 5000 "[]"]
  from t s b have "countWords (concat [js ''[00:00:01.000]'', [0x20], js ''[00:00:01.000]'']) = 1"
    by simp
  moreover from u have "countWords (js '''') = 1" by (simp add: e)
  moreover from t have "splitIntoChunks (js '''') 5000 = [js '''']" by (simp add: e)
  moreover from t l have "snd (snd (chunkStep 5000 ([], [js ''a''], 1) (js ''  ''))) = 2"
    by simp
  ultimately show ?thesis using s b l by simp
qed

section \<open>The config resolver and the formatter\<close>

declare digitsOf.simps [simp del]

lemma orElse_value: "v \<noteq> Null \<Longrightarrow> orElse (Some v) d = v"
  by (cases v) auto





text \<open>
  Claim C9. The resolved \<open>numChunks\<close> is 1 when no value is supplied and the minimum
  (\<open>Math.min\<close>) of the supplied value and 5 otherwise; there is no lower bound, so a
  supplied number of zero or less is returned as it is.
\<close>

theorem numChunks_upper_bound_only:
  "(arg_chunks a = None \<or> arg_chunks a = Some Null \<longrightarrow>
      numChunks (validateConfig conv a) = Finite 1)
   \<and> (\<forall>v. arg_chunks a = Some v \<and> v \<noteq> Null \<longrightarrow>
         numChunks (validateConfig conv a) = mathMin (ToNumber conv v) (Finite 5))
   \<and> (\<forall>x. arg_chunks a = Some (Number (Finite x)) \<longrightarrow>
         numChunks (validateConfig conv a) = Finite (min x 5))
   \<and> (\<forall>x. arg_chunks a = Some (Number (Finite x)) \<longrightarrow> x \<le> 0 \<longrightarrow>
         numChunks (validateConfig conv a) = Finite x)"
proof (intro conjI allI impI)
  assume "arg_chunks a = None \<or> arg_chunks a = Some Null"
  then show "numChunks (validateConfig conv a) = Finite 1"
    by (auto simp: validateConfig_def CHUNKS_DEFAULT_def CHUNKS_MAX_def mathMin_def)
next
  fix v assume v: "arg_chunks a = Some v \<and> v \<noteq> Null"
  then show "numChunks (validateConfig conv a) = mathMin (ToNumber conv v) (Finite 5)"
    by (simp add: validateConfig_def orElse_value CHUNKS_MAX_def)
next
  fix x assume "arg_chunks a = Some (Number (Finite x))"
  then show "numChunks (validateConfig conv a) = Finite (min x 5)"
    by (auto simp: validateConfig_def CHUNKS_MAX_def mathMin_def)
next
  fix x :: real assume "arg_chunks a = Some (Number (Finite x))" and "x \<le> 0"
  then show "numChunks (validateConfig conv a) = Finite x"
    by (auto simp: validateConfig_def CHUNKS_MAX_def mathMin_def)
qed

theorem numChunks_upper_bound_only_witness:
  "numChunks (validateConfig notNumeric
      \<lparr> arg_chunkSize = None, arg_chunkIndex = None, arg_chunks = None \<rparr>) = Finite 1
   \<and> numChunks (validateConfig notNumeric
      \<lparr> arg_chunkSize = None, arg_chunkIndex = None, arg_chunks = Some (Number (Finite 9)) \<rparr>)
     = Finite 5
   \<and> numChunks (validateConfig notNumeric
      \<lparr> arg_chunkSize = None, arg_chunkIndex = None, arg_chunks = Some (Number (Finite 3)) \<rparr>)
     = Finite 3
   \<and> numChunks (validateConfig notNumeric
      \<lparr> arg_chunkSize = None, arg_chunkIndex = None, arg_chunks = Some (Number (Finite (- 2))) \<rparr>)
     = Finite (- 2)
   \<and> numChunks (validateConfig notNumeric
      \<lparr> arg_chunkSize = None, arg_chunkIndex = None, arg_chunks = Some (Number (Finite 0)) \<rparr>)
     = Finite 0
   \<and> numChunks (validateConfig notNumeric
      \<lparr> arg_chunkSize = None, arg_chunkIndex = None, arg_chunks = Some (String (js ''abc'')) \<rparr>)
     = NaN"
  using numChunks_upper_bound_only [of "\<lparr> arg_chunkSize = None, arg_chunkIndex = None,
                                           arg_chunks = None \<rparr>" notNumeric]
    numChunks_upper_bound_only [of "\<lparr> arg_chunkSize = None, arg_chunkIndex = None,
                                       arg_chunks = Some (Number (Finite 9)) \<rparr>" notNumeric]
    numChunks_upper_bound_only [of "\<lparr> arg_chunkSize = None, arg_chunkIndex = None,
                                       arg_chunks = Some (Number (Finite 3)) \<rparr>" notNumeric]
    numChunks_upper_bound_only [of "\<lparr> arg_chunkSize = None, arg_chunkIndex = None,
                                       arg_chunks = Some (Number (Finite (- 2))) \<rparr>" notNumeric]
    numChunks_upper_bound_only [of "\<lparr> arg_chunkSize = None, arg_chunkIndex = None,
                                       arg_chunks = Some (Number (Finite 0)) \<rparr>" notNumeric]
    numChunks_upper_bound_only [of "\<lparr> arg_chunkSize = None, arg_chunkIndex = None,
                                       arg_chunks = Some (String (js ''abc'')) \<rparr>" notNumeric]
  by (simp add: notNumeric_def mathMin_def)

lemma showInt_1: "showInt 1 = js ''1''"
  by (simp add: showInt_def digitsOf.simps js_def)

text \<open>
  Claim C4. \<open>formatResponse\<close> throws exactly when \<open>chunkIndex < 0\<close> or
  \<open>chunkIndex \<ge> totalChunks\<close>; the message then names the range from 0 to
  \<open>totalChunks - 1\<close>, and with chunk index 5 and 2 chunks it reads
  \<open>Invalid chunk index. Available chunks: 0-1\<close>.
\<close>

theorem formatResponse_error_iff:
  "(isl (formatResponse p) \<longleftrightarrow> chunkIndex (config p) < 0 \<or> totalChunks p \<le> chunkIndex (config p))
   \<and> (isl (formatResponse p) \<longrightarrow>
        formatResponse p = Inl (Error (js ''Invalid chunk index. Available chunks: 0-''
                                       @ showInt (totalChunks p - 1))))
   \<and> (chunkIndex (config p) = 5 \<and> totalChunks p = 2 \<longrightarrow>
        formatResponse p = Inl (Error (js ''Invalid chunk index. Available chunks: 0-1'')))
   \<and> (0 \<le> chunkIndex (config p) \<and> chunkIndex (config p) \<le> totalChunks p - 1 \<longrightarrow>
        (\<exists>report. formatResponse p = Inr report))"
proof (intro conjI impI)
  show "isl (formatResponse p) \<longleftrightarrow> chunkIndex (config p) < 0 \<or> totalChunks p \<le> chunkIndex (config p)"
    by (simp add: formatResponse_def Let_def)
next
  assume "isl (formatResponse p)"
  then show "formatResponse p = Inl (Error (js ''Invalid chunk index. Available chunks: 0-''
                                       @ showInt (totalChunks p - 1)))"
    by (simp add: formatResponse_def Let_def split: if_splits)
next
  assume "chunkIndex (config p) = 5 \<and> totalChunks p = 2"
  then show "formatResponse p = Inl (Error (js ''Invalid chunk index. Available chunks: 0-1''))"
    by (simp add: formatResponse_def showInt_1 js_def)
next
  assume "0 \<le> chunkIndex (config p) \<and> chunkIndex (config p) \<le> totalChunks p - 1"
  then show "\<exists>report. formatResponse p = Inr report"
    by (simp add: formatResponse_def Let_def)
qed

theorem formatResponse_error_iff_witness:
  "formatResponse \<lparr> config = \<lparr> chunkSize = 5000, chunkIndex = 5, numChunks = 1 \<rparr>,
                     chunks = [js ''a'', js ''b''], totalChunks = 2 \<rparr>
     = Inl (Error (js ''Invalid chunk index. Available chunks: 0-1''))
   \<and> isl (formatResponse \<lparr> config = \<lparr> chunkSize = 5000, chunkIndex = - 1, numChunks = 1 \<rparr>,
                     chunks = [js ''a'', js ''b''], totalChunks = 2 \<rparr>)
   \<and> formatResponse \<lparr> config = \<lparr> chunkSize = 5000, chunkIndex = 1, numChunks = 1 \<rparr>,
                     chunks = [js ''a'', js ''b''], totalChunks = 2 \<rparr>
     = Inr (js ''Configuration:'' @ [nl] @ js ''- Chunk size: 5000 words'' @ [nl]
            @ js ''- Starting chunk: 2'' @ [nl] @ js ''- Chunks requested: 1'' @ [nl]
            @ js ''- Total available chunks: 2'' @ [nl] @ js ''====================='' @ [nl] @ [nl]
            @ js ''[Chunk 2/2]'' @ [nl] @ js ''b'' @ [nl])"
proof -
  have "formatResponse \<lparr> config = \<lparr> chunkSize = 5000, chunkIndex = 1, numChunks = 1 \<rparr>,
                     chunks = [js ''a'', js ''b''], totalChunks = 2 \<rparr>
     = Inr (js ''Configuration:'' @ [nl] @ js ''- Chunk size: 5000 words'' @ [nl]
            @ js ''- Starting chunk: 2'' @ [nl] @ js ''- Chunks requested: 1'' @ [nl]
            @ js ''- Total available chunks: 2'' @ [nl] @ js ''====================='' @ [nl] @ [nl]
            @ js ''[Chunk 2/2]'' @ [nl] @ js ''b'' @ [nl])"
    by code_simp
  then show ?thesis
    using formatResponse_error_iff [of "\<lparr> config = \<lparr> chunkSize = 5000, chunkIndex = 5, numChunks = 1 \<rparr>,
                     chunks = [js ''a'', js ''b''], totalChunks = 2 \<rparr>"]
      formatResponse_error_iff [of "\<lparr> config = \<lparr> chunkSize = 5000, chunkIndex = - 1, numChunks = 1 \<rparr>,
                     chunks = [js ''a'', js ''b''], totalChunks = 2 \<rparr>"]
    by simp
qed

section \<open>The cleaner\<close>

declare removeTags.simps(2) [simp del] removeAlign.simps(2) [simp del]





















lemma trim_tail:
  "dropWhile isSpace s = trim s @ rev (takeWhile isSpace (rev (dropWhile isSpace s)))"
proof -
  let ?u = "dropWhile isSpace s"
  have "rev (takeWhile isSpace (rev ?u) @ dropWhile isSpace (rev ?u)) = rev (rev ?u)"
    by (simp only: takeWhile_dropWhile_id)
  then have "rev (dropWhile isSpace (rev ?u)) @ rev (takeWhile isSpace (rev ?u)) = ?u"
    by (simp only: rev_append rev_rev_ident)
  then show ?thesis by (simp only: trim_def)
qed

lemma trim_decomp:
  "s = takeWhile isSpace s @ trim s @ rev (takeWhile isSpace (rev (dropWhile isSpace s)))"
  using trim_tail [of s] takeWhile_dropWhile_id [of isSpace s] by simp








lemma normalSpaces_collapseSpaces: "normalSpaces (collapseSpaces s)"
proof (induction s rule: collapseSpaces.induct)
  case 1
  then show ?case by simp
next
  case (2 c cs)
  show ?case
  proof (cases "isSpace c")
    case True
    have "dropWhile isSpace cs = [] \<or> \<not> isSpace (hd (dropWhile isSpace cs))"
      using hd_dropWhile [of isSpace cs] by blast
    then have "case collapseSpaces (dropWhile isSpace cs) of [] \<Rightarrow> True | d # _ \<Rightarrow> \<not> isSpace d"
      by (cases "dropWhile isSpace cs") (auto simp del: dropWhile_eq_Nil_conv)
    with 2(1) [OF True] True show ?thesis by simp
  next
    case False
    with 2(2) [OF False] show ?thesis by simp
  qed
qed


lemma normalSpaces_suffix: "normalSpaces (xs @ ys) \<Longrightarrow> normalSpaces ys"
  by (induction xs) auto

lemma normalSpaces_prefix: "normalSpaces (xs @ ys) \<Longrightarrow> normalSpaces xs"
proof (induction xs)
  case Nil
  then show ?case by simp
next
  case (Cons c xs)
  then show ?case by (cases xs) (auto split: if_splits)
qed

lemma normalSpaces_trim: "normalSpaces s \<Longrightarrow> normalSpaces (trim s)"
  using trim_decomp [of s] by (metis normalSpaces_prefix normalSpaces_suffix)

lemma dropWhile_no_lead: "xs = [] \<or> \<not> P (hd xs) \<Longrightarrow> dropWhile P xs = xs"
  by (cases xs) auto

lemma trim_trim: "trim (trim s) = trim s"
proof -
  let ?u = "dropWhile isSpace s"
  let ?r = "dropWhile isSpace (rev ?u)"
  have t: "trim s = rev ?r" by (simp add: trim_def)
  have u: "?u = rev ?r @ rev (takeWhile isSpace (rev ?u))"
    using trim_tail [of s] by (simp only: t)
  have lead_u: "?u = [] \<or> \<not> isSpace (hd ?u)"
    using hd_dropWhile [of isSpace s] by blast
  have lead_r: "?r = [] \<or> \<not> isSpace (hd ?r)"
    using hd_dropWhile [of isSpace "rev ?u"] by blast
  have "rev ?r = [] \<or> \<not> isSpace (hd (rev ?r))"
  proof (cases "rev ?r = []")
    case True
    then show ?thesis by simp
  next
    case False
    then have "hd ?u = hd (rev ?r)" using u by (metis hd_append2)
    moreover have "?u \<noteq> []" using False u by (metis append_is_Nil_conv)
    ultimately show ?thesis using lead_u by metis
  qed
  then have a: "dropWhile isSpace (rev ?r) = rev ?r" by (rule dropWhile_no_lead)
  have b: "dropWhile isSpace ?r = ?r" using lead_r by (rule dropWhile_no_lead)
  have "trim (rev ?r) = rev ?r"
    unfolding trim_def a by (simp only: rev_rev_ident b)
  then show ?thesis by (simp only: t)
qed

lemma cleanText_shape: "normalSpaces (cleanText x) \<and> trim (cleanText x) = cleanText x"
  by (simp add: cleanText_def normalSpaces_trim normalSpaces_collapseSpaces trim_trim)




section \<open>The transcript builder\<close>

lemma processLines_emitted:
  "fst (processLines (tr, ts, prev) ls)
     = tr @ map (\<lambda>(a, t). renderLine a t) (emitted ts prev ls)"
  unfolding processLines_def
  by (induction ls arbitrary: tr ts prev) (auto simp: Let_def)

lemma captionTexts_Nil: "captionTexts [] = []"
  by (simp add: captionTexts_def)

lemma captionTexts_Cons:
  "captionTexts (raw # ls) =
     (if trim raw \<noteq> [] \<and> \<not> testTimestamp (trim raw) \<and> cleanText (trim raw) \<noteq> []
      then cleanText (trim raw) # captionTexts ls else captionTexts ls)"
  by (simp add: captionTexts_def)

lemma captionTexts_nonempty: "[] \<notin> set (captionTexts ls)"
  by (simp add: captionTexts_def)

lemma emitted_texts:
  "prev # map snd (emitted ts prev ls) = remdups_adj (prev # captionTexts ls)"
proof (induction ls arbitrary: ts prev)
  case Nil
  then show ?case by (simp add: captionTexts_Nil)
next
  case (Cons raw ls)
  show ?case
  proof (cases "trim raw \<noteq> [] \<and> \<not> testTimestamp (trim raw) \<and> cleanText (trim raw) \<noteq> []")
    case True
    then show ?thesis
      using Cons.IH [of "cleanText (trim raw)" ts] Cons.IH [of prev ts]
      by (simp add: captionTexts_Cons Let_def)
  next
    case False
    then show ?thesis
      using Cons.IH [of prev ts] Cons.IH [of prev "firstPart (lits '' -->'') (trim raw)"]
      by (auto simp: captionTexts_Cons Let_def)
  qed
qed

lemma remdups_adj_fresh: "x \<notin> set xs \<Longrightarrow> remdups_adj (x # xs) = x # remdups_adj xs"
  by (cases xs) auto

lemma emitted_texts_init: "map snd (emitted ts [] ls) = remdups_adj (captionTexts ls)"
  using emitted_texts [of "[]" ts ls] remdups_adj_fresh [OF captionTexts_nonempty, of ls]
  by simp

lemma matchAtoms_append_pattern:
  "matchAtoms (p @ q) s = (case matchAtoms p s of None \<Rightarrow> None | Some r \<Rightarrow> matchAtoms q r)"
  by (induction p s rule: matchAtoms.induct) auto

lemma matchAtoms_prefix:
  "matchAtoms p s = Some r \<Longrightarrow> \<exists>pre. s = pre @ r \<and> matchAtoms p pre = Some []"
proof (induction p s rule: matchAtoms.induct)
  case (3 a as c cs)
  then obtain pre where "cs = pre @ r" "matchAtoms as pre = Some []" "atomOk a c"
    by (auto split: if_splits)
  then have "c # cs = (c # pre) @ r \<and> matchAtoms (a # as) (c # pre) = Some []" by simp
  then show ?case by blast
qed auto

lemma matchAtoms_chars:
  "matchAtoms p pre = Some [] \<Longrightarrow> c \<in> set pre \<Longrightarrow> \<exists>a \<in> set p. atomOk a c"
  by (induction p pre rule: matchAtoms.induct) (auto split: if_splits)

lemma clock_chars:
  assumes "matchAtoms clockAtoms ts = Some []" and "c \<in> set ts"
  shows "isDigit c \<or> c = 0x3A \<or> c = 0x2E"
proof -
  from matchAtoms_chars [OF assms] obtain a where "a \<in> set clockAtoms" "atomOk a c" by blast
  then show ?thesis by (auto simp: clockAtoms_def lits_def)
qed

lemma clock_chars_plain:
  assumes "ts = [] \<or> matchAtoms clockAtoms ts = Some []" and "c \<in> set ts"
  shows "c \<noteq> 0x20 \<and> c \<noteq> 0x5D \<and> c \<noteq> nl"
proof -
  from assms have "isDigit c \<or> c = 0x3A \<or> c = 0x2E" using clock_chars by auto
  then show ?thesis by (auto simp: isDigit_def nl_def)
qed

lemma firstPart_prefix:
  "(\<And>c. c \<in> set pre \<Longrightarrow> \<not> atomOk a c) \<Longrightarrow> matchAtoms (a # as) r \<noteq> None
     \<Longrightarrow> firstPart (a # as) (pre @ r) = pre"
proof (induction pre)
  case Nil
  then show ?case by (cases r) auto
next
  case (Cons c pre)
  then show ?case by simp
qed

lemma testTimestamp_firstPart:
  assumes "testTimestamp line"
  shows "matchAtoms clockAtoms (firstPart (lits '' -->'') line) = Some []"
proof -
  have shape: "TIMESTAMP_REGEX = clockAtoms @ (lits '' -->'' @ (lits '' '' @ clockAtoms))"
    by (simp add: TIMESTAMP_REGEX_def lits_def)
  from assms obtain r where r: "matchAtoms clockAtoms line = Some r"
    and m: "matchAtoms (lits '' -->'' @ (lits '' '' @ clockAtoms)) r \<noteq> None"
    unfolding testTimestamp_def shape matchAtoms_append_pattern [of clockAtoms]
    by (auto split: option.splits)
  from m have arrow: "matchAtoms (lits '' -->'') r \<noteq> None"
    unfolding matchAtoms_append_pattern [of "lits '' -->''"] by (auto split: option.splits)
  from matchAtoms_prefix [OF r] obtain pre where pre: "line = pre @ r"
    "matchAtoms clockAtoms pre = Some []" by blast
  have "firstPart (Lit 0x20 # lits ''-->'') (pre @ r) = pre"
  proof (rule firstPart_prefix)
    fix c assume "c \<in> set pre"
    with pre(2) have "c \<noteq> 0x20" using clock_chars_plain by blast
    then show "\<not> atomOk (Lit 0x20) c" by simp
  next
    show "matchAtoms (Lit 0x20 # lits ''-->'') r \<noteq> None"
      using arrow by (simp add: lits_def)
  qed
  then have "firstPart (lits '' -->'') line = pre" by (simp add: pre(1) lits_def)
  with pre(2) show ?thesis by simp
qed

lemma emitted_stamps:
  "ts0 = [] \<or> matchAtoms clockAtoms ts0 = Some [] \<Longrightarrow> (ts, t) \<in> set (emitted ts0 prev ls)
     \<Longrightarrow> ts = [] \<or> matchAtoms clockAtoms ts = Some []"
proof (induction ls arbitrary: ts0 prev)
  case Nil
  then show ?case by simp
next
  case (Cons raw ls)
  show ?case
  proof (cases "trim raw \<noteq> [] \<and> testTimestamp (trim raw)")
    case True
    with Cons.prems(2) have "(ts, t) \<in> set (emitted (firstPart (lits '' -->'') (trim raw)) prev ls)"
      by (simp add: Let_def)
    moreover have "matchAtoms clockAtoms (firstPart (lits '' -->'') (trim raw)) = Some []"
      using True by (simp add: testTimestamp_firstPart)
    ultimately show ?thesis using Cons.IH by blast
  next
    case False
    with Cons.prems(2) have "(ts, t) = (ts0, cleanText (trim raw))
        \<or> (ts, t) \<in> set (emitted ts0 (cleanText (trim raw)) ls)
        \<or> (ts, t) \<in> set (emitted ts0 prev ls)"
      by (auto simp: Let_def split: if_splits)
    then show ?thesis using Cons.IH Cons.prems(1) by blast
  qed
qed

lemma normalSpaces_only_space: "normalSpaces s \<Longrightarrow> c \<in> set s \<Longrightarrow> isSpace c \<Longrightarrow> c = 0x20"
  by (induction s) (auto split: if_splits)

lemma cleanText_no_newline: "nl \<notin> set (cleanText x)"
proof
  assume "nl \<in> set (cleanText x)"
  moreover have "isSpace nl" by (simp add: isSpace_def nl_def)
  ultimately have "nl = 0x20" using normalSpaces_only_space cleanText_shape by blast
  then show False by (simp add: nl_def)
qed

lemma captionTexts_no_newline: "t \<in> set (captionTexts ls) \<Longrightarrow> nl \<notin> set t"
  by (auto simp: captionTexts_def cleanText_no_newline)

lemma renderLine_no_newline:
  assumes "ts = [] \<or> matchAtoms clockAtoms ts = Some []" and "nl \<notin> set t"
  shows "nl \<notin> set (renderLine ts t)"
proof -
  have "nl \<notin> set ts" using clock_chars_plain [OF assms(1)] by blast
  with assms(2) show ?thesis by (simp add: renderLine_def js_def nl_def)
qed

lemma lineText_renderLine:
  assumes "ts = [] \<or> matchAtoms clockAtoms ts = Some []"
  shows "lineText (renderLine ts t) = t"
proof -
  have "\<forall>c \<in> set ts. c \<noteq> 0x5D" using clock_chars_plain [OF assms] by blast
  then have "dropWhile (\<lambda>c. c \<noteq> 0x5D) (ts @ 0x5D # 0x20 # t) = 0x5D # 0x20 # t"
    by (simp add: dropWhile_append2)
  then show ?thesis by (simp add: lineText_def renderLine_def js_def)
qed

lemma join_nonempty: "x \<noteq> [] \<Longrightarrow> join sep (x # xs) \<noteq> []"
  by (cases xs) auto

lemma renderLine_nonempty: "renderLine ts t \<noteq> []"
  by (simp add: renderLine_def js_def)

text \<open>
  Claim C3. The lines of the transcript, read back from the string, carry as texts the
  considered texts with every run of equal neighbours reduced to one: no two consecutive
  lines have the same text, and a text that comes back after a different one is emitted
  again. Each line is \<open>[timestamp] text\<close> with an empty or a clock-shaped timestamp, so
  the text of a line is read without doubt; the transcript is empty exactly when no text
  is considered.
\<close>

theorem transcript_no_adjacent_duplicates:
  "map lineText (splitOn nl (processSubtitles content))
     = (if captionTexts (splitOn nl content) = [] then [[]]
        else remdups_adj (captionTexts (splitOn nl content)))
   \<and> distinct_adj (map lineText (splitOn nl (processSubtitles content)))
   \<and> (processSubtitles content = [] \<longleftrightarrow> captionTexts (splitOn nl content) = [])
   \<and> (\<forall>line \<in> set (splitOn nl (processSubtitles content)).
        line = [] \<or> (\<exists>ts. (ts = [] \<or> matchAtoms clockAtoms ts = Some [])
                          \<and> line = renderLine ts (lineText line)))"
proof -
  let ?es = "emitted [] [] (splitOn nl content)"
  let ?r = "\<lambda>(ts, t). renderLine ts t"
  let ?texts = "remdups_adj (captionTexts (splitOn nl content))"
  have tr: "processSubtitles content = join [nl] (map ?r ?es)"
    by (simp add: processSubtitles_def processLines_emitted)
  have texts: "map snd ?es = ?texts" by (rule emitted_texts_init)
  have stamps: "fst e = [] \<or> matchAtoms clockAtoms (fst e) = Some []" if "e \<in> set ?es" for e
    using that emitted_stamps [of "[]" "fst e" "snd e" "[]" "splitOn nl content"] by simp
  have each: "lineText (?r e) = snd e" if "e \<in> set ?es" for e
    using stamps [OF that] by (cases e) (simp add: lineText_renderLine)
  have empty_iff: "?es = [] \<longleftrightarrow> captionTexts (splitOn nl content) = []"
    using texts by (metis map_is_Nil_conv remdups_adj_Nil_iff)
  show ?thesis
  proof (cases "?es = []")
    case True
    then have "processSubtitles content = []" by (simp add: tr)
    moreover have "captionTexts (splitOn nl content) = []" using True empty_iff by blast
    moreover have "lineText [] = []" by (simp add: lineText_def)
    ultimately show ?thesis by (simp add: splitOn_Nil)
  next
    case False
    have no_nl: "nl \<notin> set l" if "l \<in> set (map ?r ?es)" for l
    proof -
      from that obtain e where e: "e \<in> set ?es" "l = ?r e" by auto
      have "snd e \<in> set ?texts" using e(1) texts by (metis image_eqI set_map)
      then have "nl \<notin> set (snd e)" by (simp add: captionTexts_no_newline)
      with stamps [OF e(1)] show ?thesis
        using e(2) by (cases e) (simp add: renderLine_no_newline)
    qed
    have lines: "splitOn nl (processSubtitles content) = map ?r ?es"
      unfolding tr using False no_nl by (intro splitOn_join) auto
    have lt: "map lineText (map ?r ?es) = map snd ?es"
      using each by (simp add: comp_def cong: map_cong)
    have c1: "map lineText (splitOn nl (processSubtitles content)) = ?texts"
      by (simp only: lines lt texts)
    have ne: "captionTexts (splitOn nl content) \<noteq> []" using False empty_iff by blast
    obtain e es' where ees: "?es = e # es'" using False by (cases ?es) auto
    have "processSubtitles content \<noteq> []"
      unfolding tr ees by (cases e) (simp add: join_nonempty renderLine_nonempty)
    moreover have "\<forall>line \<in> set (splitOn nl (processSubtitles content)).
        line = [] \<or> (\<exists>ts. (ts = [] \<or> matchAtoms clockAtoms ts = Some [])
                          \<and> line = renderLine ts (lineText line))"
    proof
      fix line assume "line \<in> set (splitOn nl (processSubtitles content))"
      then obtain e where e: "e \<in> set ?es" "line = ?r e" unfolding lines by auto
      have "line = renderLine (fst e) (lineText line)"
        using each [OF e(1)] e(2) by (cases e) simp
      with stamps [OF e(1)] show "line = [] \<or> (\<exists>ts. (ts = [] \<or> matchAtoms clockAtoms ts = Some [])
                          \<and> line = renderLine ts (lineText line))" by blast
    qed
    ultimately show ?thesis using c1 ne by simp
  qed
qed

theorem transcript_no_adjacent_duplicates_witness:
  "processSubtitles (js ''00:00:01.000 --> 00:00:02.000'' @ [nl] @ js ''b'' @ [nl]
       @ js ''00:00:03.000 --> 00:00:04.000'' @ [nl] @ js ''b'' @ [nl] @ js ''a'' @ [nl] @ js ''b'')
     = js ''[00:00:01.000] b'' @ [nl] @ js ''[00:00:03.000] a'' @ [nl] @ js ''[00:00:03.000] b''
   \<and> captionTexts (splitOn nl (js ''00:00:01.000 --> 00:00:02.000'' @ [nl] @ js ''b'' @ [nl]
       @ js ''00:00:03.000 --> 00:00:04.000'' @ [nl] @ js ''b'' @ [nl] @ js ''a'' @ [nl] @ js ''b''))
     = [js ''b'', js ''b'', js ''a'', js ''b'']
   \<and> map lineText (splitOn nl (processSubtitles (js ''00:00:01.000 --> 00:00:02.000'' @ [nl]
       @ js ''b'' @ [nl] @ js ''00:00:03.000 --> 00:00:04.000'' @ [nl] @ js ''b'' @ [nl]
       @ js ''a'' @ [nl] @ js ''b'')))
     = [js ''b'', js ''a'', js ''b'']"
proof -
  let ?c = "js ''00:00:01.000 --> 00:00:02.000'' @ [nl] @ js ''b'' @ [nl]
       @ js ''00:00:03.000 --> 00:00:04.000'' @ [nl] @ js ''b'' @ [nl] @ js ''a'' @ [nl] @ js ''b''"
  have p: "processSubtitles ?c
     = js ''[00:00:01.000] b'' @ [nl] @ js ''[00:00:03.000] a'' @ [nl] @ js ''[00:00:03.000] b''"
    by code_simp
  have c: "captionTexts (splitOn nl ?c) = [js ''b'', js ''b'', js ''a'', js ''b'']"
    by code_simp
  have r: "remdups_adj [js ''b'', js ''b'', js ''a'', js ''b''] = [js ''b'', js ''a'', js ''b'']"
    by (simp add: js_def)
  from transcript_no_adjacent_duplicates [of "?c"]
  have "map lineText (splitOn nl (processSubtitles ?c))
     = (if captionTexts (splitOn nl ?c) = [] then [[]]
        else remdups_adj (captionTexts (splitOn nl ?c)))" by (rule conjunct1)
  then have "map lineText (splitOn nl (processSubtitles ?c)) = [js ''b'', js ''a'', js ''b'']"
    unfolding c r by simp
  with p c show ?thesis by (intro conjI)
qed

lemma emitted_no_marker:
  "(\<And>l. l \<in> set pre \<Longrightarrow> \<not> testTimestamp (trim l))
     \<Longrightarrow> emitted ts prev pre = map (Pair ts) (map snd (emitted ts prev pre))"
  by (induction pre arbitrary: prev) (auto simp: Let_def)

lemma processLines_append:
  "processLines st (pre @ rest) = processLines (processLines st pre) rest"
  by (simp add: processLines_def)

lemma processLines_grows: "\<exists>more. fst (processLines st ls) = fst st @ more"
  by (cases st) (simp add: processLines_emitted)

lemma testTimestamp_nonempty: "testTimestamp l \<Longrightarrow> l \<noteq> []"
  by (auto simp: testTimestamp_def TIMESTAMP_REGEX_def clockAtoms_def)

lemma processLines_markers:
  "ms \<noteq> [] \<Longrightarrow> (\<And>m. m \<in> set ms \<Longrightarrow> testTimestamp (trim m))
     \<Longrightarrow> processLines (tr, ts, prev) ms = (tr, firstPart (lits '' -->'') (trim (last ms)), prev)"
proof (induction ms arbitrary: ts)
  case Nil
  then show ?case by simp
next
  case (Cons m ms)
  have m: "testTimestamp (trim m)" "trim m \<noteq> []"
    using Cons.prems(2) [of m] testTimestamp_nonempty by auto
  then have step: "processLines (tr, ts, prev) (m # ms)
      = processLines (tr, firstPart (lits '' -->'') (trim m), prev) ms"
    by (simp add: processLines_def Let_def)
  show ?case
  proof (cases "ms = []")
    case True
    with step show ?thesis by (simp add: processLines_def)
  next
    case False
    with Cons.IH [of "firstPart (lits '' -->'') (trim m)"] Cons.prems(2) step
    show ?thesis by simp
  qed
qed

text \<open>
  Claim C8. The text lines that come before any timestamp marker are emitted with the
  empty timestamp, rendered \<open>[] text\<close>; and a run of timestamp markers changes nothing
  but the current timestamp, which becomes the start time of the last marker: no line is
  emitted and the previous text stays.
\<close>

theorem lines_before_markers_and_marker_runs:
  "((\<forall>l \<in> set pre. \<not> testTimestamp (trim l)) \<longrightarrow>
      (\<exists>more. fst (processLines ([], [], []) (pre @ rest))
                = map (\<lambda>t. js ''[] '' @ t) (remdups_adj (captionTexts pre)) @ more))
   \<and> (ms \<noteq> [] \<and> (\<forall>m \<in> set ms. testTimestamp (trim m)) \<longrightarrow>
        processLines (tr, ts, prev) ms
          = (tr, firstPart (lits '' -->'') (trim (last ms)), prev))"
proof (intro conjI impI)
  assume a: "\<forall>l \<in> set pre. \<not> testTimestamp (trim l)"
  have "emitted [] [] pre = map (Pair []) (map snd (emitted [] [] pre))"
    by (rule emitted_no_marker) (simp add: a)
  then have "emitted [] [] pre = map (Pair []) (remdups_adj (captionTexts pre))"
    by (simp add: emitted_texts_init)
  then have "fst (processLines ([], [], []) pre)
      = map (\<lambda>t. js ''[] '' @ t) (remdups_adj (captionTexts pre))"
    by (simp add: processLines_emitted renderLine_def js_def comp_def)
  then show "\<exists>more. fst (processLines ([], [], []) (pre @ rest))
                = map (\<lambda>t. js ''[] '' @ t) (remdups_adj (captionTexts pre)) @ more"
    using processLines_grows [of "processLines ([], [], []) pre" rest]
    by (simp add: processLines_append)
next
  assume "ms \<noteq> [] \<and> (\<forall>m \<in> set ms. testTimestamp (trim m))"
  then show "processLines (tr, ts, prev) ms
          = (tr, firstPart (lits '' -->'') (trim (last ms)), prev)"
    by (intro processLines_markers) auto
qed

theorem lines_before_markers_and_marker_runs_witness:
  "processSubtitles (js ''hi'' @ [nl] @ js ''00:00:01.000 --> 00:00:02.000'' @ [nl]
       @ js ''00:00:03.000 --> 00:00:04.000'' @ [nl] @ js ''yo'')
     = js ''[] hi'' @ [nl] @ js ''[00:00:03.000] yo''
   \<and> \<not> testTimestamp (trim (js ''hi''))
   \<and> captionTexts [js ''hi''] = [js ''hi'']
   \<and> testTimestamp (trim (js ''00:00:01.000 --> 00:00:02.000''))
   \<and> testTimestamp (trim (js ''00:00:03.000 --> 00:00:04.000''))
   \<and> processLines ([js ''[] hi''], [], js ''hi'')
        [js ''00:00:01.000 --> 00:00:02.000'', js ''00:00:03.000 --> 00:00:04.000'']
     = ([js ''[] hi''], js ''00:00:03.000'', js ''hi'')"
proof -
  let ?m1 = "js ''00:00:01.000 --> 00:00:02.000''"
  let ?m2 = "js ''00:00:03.000 --> 00:00:04.000''"
  have h: "\<not> testTimestamp (trim (js ''hi''))" "testTimestamp (trim ?m1)" "testTimestamp (trim ?m2)"
    by code_simp+
  have c: "captionTexts [js ''hi''] = [js ''hi'']" by code_simp
  have f: "firstPart (lits '' -->'') (trim ?m2) = js ''00:00:03.000''" by code_simp
  have p: "processSubtitles (js ''hi'' @ [nl] @ ?m1 @ [nl] @ ?m2 @ [nl] @ js ''yo'')
     = js ''[] hi'' @ [nl] @ js ''[00:00:03.000] yo''" by code_simp
  note t = lines_before_markers_and_marker_runs
     [of "[js ''hi'']" "[?m1, ?m2, js ''yo'']" "[?m1, ?m2]" "[js ''[] hi'']" "[]" "js ''hi''"]
  from t h f have "processLines ([js ''[] hi''], [], js ''hi'') [?m1, ?m2]
     = ([js ''[] hi''], js ''00:00:03.000'', js ''hi'')" by simp
  with h c p show ?thesis by simp
qed

section \<open>The examples of the specification\<close>

text \<open>The second \<open>Hello world\<close> repeats the line emitted just before and is dropped.\<close>

lemma example_transcript:
  "processSubtitles (js ''00:00:01.000 --> 00:00:03.000'' @ [nl] @ js ''Hello world'' @ [nl, nl]
       @ js ''00:00:03.000 --> 00:00:05.000'' @ [nl] @ js ''Hello world'' @ [nl, nl]
       @ js ''00:00:05.000 --> 00:00:07.000'' @ [nl] @ js ''Goodbye'' @ [nl])
     = js ''[00:00:01.000] Hello world'' @ [nl] @ js ''[00:00:05.000] Goodbye''"
  by code_simp

text \<open>Three lines of one word each, at limit 2.\<close>

lemma example_chunks:
  "splitIntoChunks (js ''line1'' @ [nl] @ js ''line2'' @ [nl] @ js ''line3'') 2
     = [js ''line1'' @ [nl] @ js ''line2'', js ''line3'']"
  by code_simp

end
